theory Spec2Isabelle
  imports Main "HOL-Library.AList"
begin

section \<open>Data model of internal/controller/object/informers.go\<close>

text \<open>
  Go errors are their messages. Values owned by the libraries (rest configs, caches,
  informers, handlers, work queues, contexts) are identified by a name or a number.
\<close>

type_synonym error = string
type_synonym RestConfig = string
type_synonym Cache = nat
type_synonym Informer = nat
type_synonym Context = nat
type_synonym EventHandler = string
type_synonym Queue = string

record GroupVersionKind =
  Group :: string
  Version :: string
  Kind :: string

record gvkWithConfig =
  config :: string
  gvk :: GroupVersionKind

text \<open>\<^verbatim>\<open>cdCache\<close>: the cache and the cancel function of the context it runs under. The
  cancel function is identified by the number of the context it cancels.\<close>

record cdCache =
  cache :: Cache
  cancelFn :: Context

record Cluster =
  GetConfig :: RestConfig

text \<open>A \<^verbatim>\<open>client.Object\<close>, as far as this file reads it.\<close>

record Object =
  GetName :: string
  GetResourceVersion :: string

record UpdateEvent =
  ObjectOld :: Object
  ObjectNew :: Object

text \<open>A \<^verbatim>\<open>predicate.Predicate\<close>: its \<^verbatim>\<open>Update\<close> method, and a name to tell calls apart.\<close>

datatype Predicate = Predicate (pname: string) (Update: "UpdateEvent \<Rightarrow> bool")

text \<open>The goroutines this file starts, by what they run: \<^verbatim>\<open>ca.Start(ctx)\<close> followed by
  the deferred \<^verbatim>\<open>cancelFn()\<close>; \<^verbatim>\<open>ca.WaitForCacheSync(ctx)\<close>; and the wait for
  \<^verbatim>\<open>ctx.Done()\<close> of \<^verbatim>\<open>Start\<close>, with the id it will delete. An operation records the
  \<^verbatim>\<open>go\<close> statement; what the goroutine does later is not part of the operation.\<close>

datatype goroutine =
    CacheStart Cache Context
  | WaitForCacheSync Cache Context
  | AwaitDone Context string

text \<open>
  What an operation does besides updating the two tables, in the order it does it:
  operations on \<^verbatim>\<open>i.lock\<close>, log lines, calls of a cancel function, \<^verbatim>\<open>go\<close> statements,
  calls of a predicate's and of the handler's \<^verbatim>\<open>Update\<close>, and calls of a function stored
  in \<^verbatim>\<open>i.sinks\<close> (with the key it is stored under).
\<close>

datatype event =
    Lock
  | Unlock
  | RLock
  | RUnlock
  | Debug string
  | Info string
  | CancelFn Context
  | Go goroutine
  | PredicateUpdate string UpdateEvent
  | HandlerUpdate EventHandler Context UpdateEvent Queue
  | SinkCall string UpdateEvent

text \<open>
  The function literal stored in \<^verbatim>\<open>i.sinks\<close> by \<^verbatim>\<open>Start\<close> (lines 73 to 80), as the
  variables it captures: \<^verbatim>\<open>ctx\<close>, \<^verbatim>\<open>h\<close>, \<^verbatim>\<open>q\<close> and \<^verbatim>\<open>ps\<close>.
\<close>

datatype sink = Sink Context EventHandler Queue "Predicate list"

text \<open>
  \<^verbatim>\<open>referencedResourceInformers\<close>. The two Go maps are association lists with one
  entry per key, the order of the list being the order in which a \<^verbatim>\<open>range\<close> visits the
  map (any order, in Go). \<^verbatim>\<open>events\<close> is the record of effects so far, \<^verbatim>\<open>ctxCount\<close> the
  number of contexts made by \<^verbatim>\<open>context.WithCancel\<close> so far. The logger and
  \<^verbatim>\<open>objectsCache\<close> are outside: log lines are events, the objects cache is a parameter.
  \<^verbatim>\<open>i.cluster\<close> is set where the struct is built, outside this file, and is a cluster
  (not nil).
\<close>

record referencedResourceInformers =
  cluster :: Cluster
  cdCaches :: "(gvkWithConfig \<times> cdCache) list"
  sinks :: "(string \<times> sink) list"
  events :: "event list"
  ctxCount :: nat

text \<open>\<^verbatim>\<open>kcache.ResourceEventHandlerFuncs\<close>: three optional functions.\<close>

record ResourceEventHandlerFuncs =
  AddFunc :: "(Object \<Rightarrow> referencedResourceInformers \<Rightarrow> referencedResourceInformers) option"
  UpdateFunc :: "(Object \<Rightarrow> Object \<Rightarrow> referencedResourceInformers \<Rightarrow> referencedResourceInformers) option"
  DeleteFunc :: "(Object \<Rightarrow> referencedResourceInformers \<Rightarrow> referencedResourceInformers) option"

text \<open>
  The calls that leave this file, as parameters: \<^verbatim>\<open>cache.New\<close>, \<^verbatim>\<open>GetInformer\<close> and
  \<^verbatim>\<open>AddEventHandler\<close> of controller-runtime and client-go, \<^verbatim>\<open>List\<close> of the objects
  cache (the error it returns and the items it leaves in the list), and the index name
  \<^verbatim>\<open>objectRefGVKsIndex\<close> and key function \<^verbatim>\<open>refKeyGKV\<close>, declared elsewhere in the
  package. \<^verbatim>\<open>GetInformer\<close> is given the cache and the kind set on the object \<^verbatim>\<open>u\<close>; the
  context it also receives is the one just made, which nothing has cancelled yet.
\<close>

record external =
  cache_New :: "RestConfig \<Rightarrow> error + Cache"
  GetInformer :: "Cache \<Rightarrow> GroupVersionKind \<Rightarrow> error + Informer"
  AddEventHandler :: "Informer \<Rightarrow> ResourceEventHandlerFuncs \<Rightarrow> error option"
  objectRefGVKsIndex :: string
  refKeyGKV :: "string \<Rightarrow> string \<Rightarrow> string \<Rightarrow> string \<Rightarrow> string"
  objectsCache_List :: "string \<Rightarrow> string \<Rightarrow> error option \<times> string list"

definition emit :: "event list \<Rightarrow> referencedResourceInformers \<Rightarrow> referencedResourceInformers" where
  "emit es i = i\<lparr>events := events i @ es\<rparr>"

text \<open>The events between an earlier state and a later one.\<close>

definition newEvents :: "referencedResourceInformers \<Rightarrow> referencedResourceInformers \<Rightarrow> event list" where
  "newEvents i i' = drop (length (events i)) (events i')"

section \<open>Start\<close>

text \<open>The body of the function stored in \<^verbatim>\<open>i.sinks\<close>: the loop over \<^verbatim>\<open>ps\<close>, then
  \<^verbatim>\<open>h.Update(ctx, ev, q)\<close>.\<close>

fun sinkLoop :: "Context \<Rightarrow> EventHandler \<Rightarrow> Queue \<Rightarrow> Predicate list \<Rightarrow> UpdateEvent \<Rightarrow> event list" where
  "sinkLoop ctx h q [] ev = [HandlerUpdate h ctx ev q]"
| "sinkLoop ctx h q (p # ps) ev =
     PredicateUpdate (pname p) ev # (if \<not> Update p ev then [] else sinkLoop ctx h q ps ev)"

fun handleFn :: "sink \<Rightarrow> UpdateEvent \<Rightarrow> event list" where
  "handleFn (Sink ctx h q ps) ev = sinkLoop ctx h q ps ev"

text \<open>\<^verbatim>\<open>Start\<close>; \<^verbatim>\<open>uuid\<close> is what \<^verbatim>\<open>uuid.New().String()\<close> returns. The deferred unlock
  runs last. The result is the returned error and the new state; \<open>sid\<close> is the
  variable \<^verbatim>\<open>id\<close>.\<close>

definition Start ::
  "string \<Rightarrow> Context \<Rightarrow> EventHandler \<Rightarrow> Queue \<Rightarrow> Predicate list \<Rightarrow>
   referencedResourceInformers \<Rightarrow> error option \<times> referencedResourceInformers" where
  "Start uuid ctx h q ps i =
     (let sid = uuid;
          i1 = emit [Lock] i;
          i2 = i1\<lparr>sinks := AList.update sid (Sink ctx h q ps) (sinks i1)\<rparr>;
          i3 = emit [Go (AwaitDone ctx sid)] i2
      in (None, emit [Unlock] i3))"

text \<open>The goroutine of \<^verbatim>\<open>Start\<close> (lines 82 to 88), from the moment \<^verbatim>\<open>ctx.Done()\<close> is
  closed.\<close>

definition Start_goroutine :: "string \<Rightarrow> referencedResourceInformers \<Rightarrow> referencedResourceInformers" where
  "Start_goroutine sid i =
     (let i1 = emit [Lock] i;
          i2 = i1\<lparr>sinks := AList.delete sid (sinks i1)\<rparr>
      in emit [Unlock] i2)"

section \<open>WatchReferencedResources\<close>

text \<open>The loop over \<^verbatim>\<open>i.sinks\<close> in the update handler (lines 152 to 154).\<close>

fun sinksLoop :: "(string \<times> sink) list \<Rightarrow> UpdateEvent \<Rightarrow> referencedResourceInformers \<Rightarrow> referencedResourceInformers" where
  "sinksLoop [] ev i = i"
| "sinksLoop ((sid, f) # rest) ev i = sinksLoop rest ev (emit (SinkCall sid ev # handleFn f ev) i)"

text \<open>The \<^verbatim>\<open>UpdateFunc\<close> literal (lines 138 to 155). The type assertions cannot fail here:
  both arguments are objects.\<close>

definition updateFunc :: "Object \<Rightarrow> Object \<Rightarrow> referencedResourceInformers \<Rightarrow> referencedResourceInformers" where
  "updateFunc old obj i =
     (if GetResourceVersion old = GetResourceVersion obj then i
      else
        let i1 = emit [RLock] i;
            ev = \<lparr>ObjectOld = old, ObjectNew = obj\<rparr>;
            i2 = sinksLoop (sinks i1) ev i1
        in emit [RUnlock] i2)"

text \<open>The value passed to \<^verbatim>\<open>inf.AddEventHandler\<close> (line 137): only \<^verbatim>\<open>UpdateFunc\<close> is
  set.\<close>

definition handlerFuncs :: ResourceEventHandlerFuncs where
  "handlerFuncs = \<lparr>AddFunc = None, UpdateFunc = Some updateFunc, DeleteFunc = None\<rparr>"

text \<open>
  One round of the loop of \<^verbatim>\<open>WatchReferencedResources\<close> (lines 107 to 179), on the
  variable \<^verbatim>\<open>cluster\<close> (\<open>None\<close> is nil) and the state. Each \<^verbatim>\<open>continue\<close> is a result.
\<close>

definition watchStep ::
  "external \<Rightarrow> Cluster option \<Rightarrow> gvkWithConfig \<Rightarrow> referencedResourceInformers \<Rightarrow>
   Cluster option \<times> referencedResourceInformers" where
  "watchStep ext cl gc i =
     (if map_of (cdCaches i) gc \<noteq> None then (cl, i)
      else
        let c = (case cl of None \<Rightarrow> cluster i | Some c' \<Rightarrow> c') in
        (case cache_New ext (GetConfig c) of
          Inl err \<Rightarrow> (Some c, emit [Debug ''failed creating a cache''] i)
        | Inr ca \<Rightarrow>
            (let ctx = ctxCount i;
                 i1 = i\<lparr>ctxCount := Suc ctx\<rparr>
             in
             (case GetInformer ext ca (gvk gc) of
               Inl err \<Rightarrow> (Some c, emit [CancelFn ctx, Debug ''failed getting informer''] i1)
             | Inr informer \<Rightarrow>
                 (case AddEventHandler ext informer handlerFuncs of
                   Some err \<Rightarrow> (Some c, emit [CancelFn ctx, Debug ''failed adding event handler''] i1)
                 | None \<Rightarrow>
                     (let i2 = emit [Go (CacheStart ca ctx)] i1;
                          i3 = i2\<lparr>cdCaches := AList.update gc \<lparr>cache = ca, cancelFn = ctx\<rparr> (cdCaches i2)\<rparr>
                      in (Some c, emit [Go (WaitForCacheSync ca ctx)] i3)))))))"

fun watchLoop ::
  "external \<Rightarrow> Cluster option \<Rightarrow> gvkWithConfig list \<Rightarrow> referencedResourceInformers \<Rightarrow>
   referencedResourceInformers" where
  "watchLoop ext cl [] i = i"
| "watchLoop ext cl (gc # gcs) i =
     (case watchStep ext cl gc i of (cl', i') \<Rightarrow> watchLoop ext cl' gcs i')"

text \<open>\<^verbatim>\<open>WatchReferencedResources\<close>: it returns nothing, so the result is the new state.\<close>

definition WatchReferencedResources ::
  "external \<Rightarrow> Cluster option \<Rightarrow> gvkWithConfig list \<Rightarrow> referencedResourceInformers \<Rightarrow>
   referencedResourceInformers" where
  "WatchReferencedResources ext cl gcs i = emit [RUnlock] (watchLoop ext cl gcs (emit [RLock] i))"

section \<open>cleanupReferencedResourceInformers\<close>

text \<open>The \<^verbatim>\<open>List\<close> call of line 192 for one key: the error it returns and the items
  of the list afterwards. The \<^verbatim>\<open>ctx\<close> of the sweep is only handed on to this call.\<close>

definition listReferencing :: "external \<Rightarrow> gvkWithConfig \<Rightarrow> error option \<times> string list" where
  "listReferencing ext gc =
     objectsCache_List ext (objectRefGVKsIndex ext)
       (refKeyGKV ext (config gc) (Kind (gvk gc)) (Group (gvk gc)) (Version (gvk gc)))"

text \<open>One round of the loop (lines 191 to 202) for the entry \<^verbatim>\<open>gc, inf\<close> (here \<open>cdc\<close>).\<close>

definition cleanupStep ::
  "external \<Rightarrow> gvkWithConfig \<times> cdCache \<Rightarrow> referencedResourceInformers \<Rightarrow> referencedResourceInformers" where
  "cleanupStep ext e i =
     (case e of (gc, cdc) \<Rightarrow>
        (case listReferencing ext gc of (err, items) \<Rightarrow>
          (let i1 = (case err of
                       Some er \<Rightarrow> emit [Debug ''cannot list objects referencing a certain resource GVK''] i
                     | None \<Rightarrow> i)
           in
           if length items > 0 then i1
           else
             (let i2 = emit [CancelFn (cancelFn cdc), Info ''Stopped referenced resource watch''] i1
              in i2\<lparr>cdCaches := AList.delete gc (cdCaches i2)\<rparr>))))"

text \<open>The \<^verbatim>\<open>range\<close> over \<^verbatim>\<open>i.cdCaches\<close>: a round deletes only the entry it is visiting, so
  the loop visits the entries the map had when it began.\<close>

fun cleanupLoop ::
  "external \<Rightarrow> (gvkWithConfig \<times> cdCache) list \<Rightarrow> referencedResourceInformers \<Rightarrow> referencedResourceInformers" where
  "cleanupLoop ext [] i = i"
| "cleanupLoop ext (e # rest) i = cleanupLoop ext rest (cleanupStep ext e i)"

definition cleanupReferencedResourceInformers ::
  "external \<Rightarrow> referencedResourceInformers \<Rightarrow> referencedResourceInformers" where
  "cleanupReferencedResourceInformers ext i = cleanupLoop ext (cdCaches i) i"

section \<open>Notifications of the informer\<close>



section \<open>The end of a subscriber's context\<close>

text \<open>
  The context \<open>c\<close> ends in a state: every goroutine that \<^verbatim>\<open>Start\<close> has started on
  \<open>c\<close> (its \<^verbatim>\<open>go\<close> statement is in the record of events) gets past
  \<^verbatim>\<open><-ctx.Done()\<close> and runs lines 85 to 87 with its id; goroutines that wait on another
  context, and the other kinds of goroutine, are not concerned. A context ends once.
\<close>

fun wake :: "Context \<Rightarrow> event \<Rightarrow> referencedResourceInformers \<Rightarrow> referencedResourceInformers" where
  "wake c (Go (AwaitDone ctx sid)) i = (if ctx = c then Start_goroutine sid i else i)"
| "wake c e i = i"

definition contextDone :: "Context \<Rightarrow> referencedResourceInformers \<Rightarrow> referencedResourceInformers" where
  "contextDone c i = foldl (\<lambda>j e. wake c e j) i (events i)"

section \<open>Derived descriptions and example values\<close>

text \<open>The events the loop over \<^verbatim>\<open>i.sinks\<close> adds for the entries \<open>xs\<close>, and the events one
  round of the garbage collection adds for an entry (\<open>sinksLoop_emit\<close> and
  \<open>cleanupStep_eq\<close> below relate them to the loops).\<close>

definition fanOut :: "(string \<times> sink) list \<Rightarrow> UpdateEvent \<Rightarrow> event list" where
  "fanOut xs ev = concat (map (\<lambda>(sid, f). SinkCall sid ev # handleFn f ev) xs)"

definition cleanupStepEvents :: "external \<Rightarrow> gvkWithConfig \<times> cdCache \<Rightarrow> event list" where
  "cleanupStepEvents ext e =
     (case fst (listReferencing ext (fst e)) of
        Some er \<Rightarrow> [Debug ''cannot list objects referencing a certain resource GVK'']
      | None \<Rightarrow> []) @
     (if snd (listReferencing ext (fst e)) \<noteq> [] then []
      else [CancelFn (cancelFn (snd e)), Info ''Stopped referenced resource watch''])"

text \<open>Whether an event is a line of the debug log.\<close>

fun isDebug :: "event \<Rightarrow> bool" where
  "isDebug (Debug m) = True"
| "isDebug e = False"

text \<open>The cluster a round of \<^verbatim>\<open>WatchReferencedResources\<close> uses (the argument, or
  \<^verbatim>\<open>i.cluster\<close> when the argument is nil), and whether building the watch of a key
  fails in a world: \<^verbatim>\<open>cache.New\<close>, \<^verbatim>\<open>GetInformer\<close> or \<^verbatim>\<open>AddEventHandler\<close> returns an
  error.\<close>

definition resolveCluster :: "Cluster option \<Rightarrow> referencedResourceInformers \<Rightarrow> Cluster" where
  "resolveCluster cl i = (case cl of None \<Rightarrow> cluster i | Some c \<Rightarrow> c)"

definition constructionFails :: "external \<Rightarrow> Cluster \<Rightarrow> gvkWithConfig \<Rightarrow> bool" where
  "constructionFails ext c gc =
     (case cache_New ext (GetConfig c) of
        Inl err \<Rightarrow> True
      | Inr ca \<Rightarrow>
          (case GetInformer ext ca (gvk gc) of
             Inl err \<Rightarrow> True
           | Inr informer \<Rightarrow> AddEventHandler ext informer handlerFuncs \<noteq> None))"

text \<open>A sequence of calls of \<^verbatim>\<open>WatchReferencedResources\<close>, each with its own world,
  cluster argument and keys.\<close>

fun watchCalls ::
  "(external \<times> Cluster option \<times> gvkWithConfig list) list \<Rightarrow> referencedResourceInformers \<Rightarrow>
   referencedResourceInformers" where
  "watchCalls [] i = i"
| "watchCalls ((ext, cl, gcs) # rest) i = watchCalls rest (WatchReferencedResources ext cl gcs i)"

text \<open>Two keys, an empty \<^verbatim>\<open>referencedResourceInformers\<close>, and three worlds: one where every
  call succeeds and nothing references any key, one where only \<open>keyA\<close> is still
  referenced, and one where the objects cache cannot be listed.\<close>

definition keyA :: gvkWithConfig where
  "keyA = \<lparr>config = ''default'', gvk = \<lparr>Group = ''apps'', Version = ''v1'', Kind = ''Deployment''\<rparr>\<rparr>"

definition keyB :: gvkWithConfig where
  "keyB = \<lparr>config = ''default'', gvk = \<lparr>Group = ''core'', Version = ''v1'', Kind = ''Secret''\<rparr>\<rparr>"

definition emptyInformers :: referencedResourceInformers where
  "emptyInformers =
     \<lparr>cluster = \<lparr>GetConfig = ''control-plane''\<rparr>, cdCaches = [], sinks = [], events = [],
      ctxCount = 0\<rparr>"

definition extHealthy :: external where
  "extHealthy =
     \<lparr>cache_New = (\<lambda>cfg. Inr 7),
      GetInformer = (\<lambda>ca k. Inr 3),
      AddEventHandler = (\<lambda>informer r. None),
      objectRefGVKsIndex = ''objectsRefsGVKsIndex'',
      refKeyGKV = (\<lambda>cfg k g v. cfg @ ''.'' @ k @ ''.'' @ g @ ''.'' @ v),
      objectsCache_List = (\<lambda>ix key. (None, []))\<rparr>"

definition extOnlyAReferenced :: external where
  "extOnlyAReferenced =
     extHealthy\<lparr>objectsCache_List :=
       (\<lambda>ix key. if key = ''default.Deployment.apps.v1'' then (None, [''composite-1''])
                  else (None, []))\<rparr>"

definition extListFails :: external where
  "extListFails = extHealthy\<lparr>objectsCache_List := (\<lambda>ix key. (Some ''connection refused'', []))\<rparr>"

text \<open>A world where no cache can be made.\<close>

definition extCacheFails :: external where
  "extCacheFails = extHealthy\<lparr>cache_New := (\<lambda>cfg. Inl ''no rest config'')\<rparr>"

text \<open>A world where no informer can be had for the kind \<open>Secret\<close>.\<close>

definition extInformerFailsForB :: external where
  "extInformerFailsForB =
     extHealthy\<lparr>GetInformer :=
       (\<lambda>ca k. if Kind k = ''Secret'' then Inl ''no matches for kind'' else Inr 3)\<rparr>"

text \<open>The state after declaring \<open>keyA\<close> and \<open>keyB\<close> on the empty one.\<close>

definition watchedAB :: referencedResourceInformers where
  "watchedAB = WatchReferencedResources extHealthy None [keyA, keyB] emptyInformers"

text \<open>Two objects that differ in resource version, and the state after two calls of
  \<^verbatim>\<open>Start\<close>: one subscriber whose predicate accepts everything, one whose predicate
  rejects everything.\<close>

definition objV1 :: Object where
  "objV1 = \<lparr>GetName = ''cm'', GetResourceVersion = ''1''\<rparr>"

definition objV2 :: Object where
  "objV2 = \<lparr>GetName = ''cm'', GetResourceVersion = ''2''\<rparr>"

definition twoSinks :: referencedResourceInformers where
  "twoSinks =
     snd (Start ''s2'' 12 ''h2'' ''q2'' [Predicate ''never'' (\<lambda>ev. False)]
       (snd (Start ''s1'' 11 ''h1'' ''q1'' [Predicate ''always'' (\<lambda>ev. True)] emptyInformers)))"

section \<open>Facts about the event record\<close>

lemma cdCaches_emit [simp]: "cdCaches (emit es i) = cdCaches i"
  by (simp add: emit_def)

lemma sinks_emit [simp]: "sinks (emit es i) = sinks i"
  by (simp add: emit_def)

lemma ctxCount_emit [simp]: "ctxCount (emit es i) = ctxCount i"
  by (simp add: emit_def)

lemma cluster_emit [simp]: "cluster (emit es i) = cluster i"
  by (simp add: emit_def)

lemma events_emit [simp]: "events (emit es i) = events i @ es"
  by (simp add: emit_def)

lemma emit_Nil [simp]: "emit [] i = i"
  by (simp add: emit_def)

lemma emit_emit [simp]: "emit es' (emit es i) = emit (es @ es') i"
  by (simp add: emit_def)

lemma newEvents_emit [simp]: "newEvents i (emit es i) = es"
  by (simp add: newEvents_def)

lemma newEvents_same [simp]: "newEvents i i = []"
  by (simp add: newEvents_def)

lemma count_list_distinct: "distinct xs \<Longrightarrow> x \<in> set xs \<Longrightarrow> count_list xs x = 1"
  by (induction xs) auto

lemma keyA_neq_keyB [simp]: "keyA \<noteq> keyB" "keyB \<noteq> keyA"
  by (simp_all add: keyA_def keyB_def)

lemma watchedAB_eval:
  "watchedAB =
     \<lparr>cluster = \<lparr>GetConfig = ''control-plane''\<rparr>,
      cdCaches = [(keyA, \<lparr>cache = 7, cancelFn = 0\<rparr>), (keyB, \<lparr>cache = 7, cancelFn = 1\<rparr>)],
      sinks = [],
      events = [RLock, Go (CacheStart 7 0), Go (WaitForCacheSync 7 0),
                Go (CacheStart 7 1), Go (WaitForCacheSync 7 1), RUnlock],
      ctxCount = 2\<rparr>"
  by (simp add: watchedAB_def WatchReferencedResources_def watchStep_def emit_def
      emptyInformers_def extHealthy_def Let_def)

lemma twoSinks_eval:
  "twoSinks =
     \<lparr>cluster = \<lparr>GetConfig = ''control-plane''\<rparr>,
      cdCaches = [],
      sinks = [(''s1'', Sink 11 ''h1'' ''q1'' [Predicate ''always'' (\<lambda>ev. True)]),
               (''s2'', Sink 12 ''h2'' ''q2'' [Predicate ''never'' (\<lambda>ev. False)])],
      events = [Lock, Go (AwaitDone 11 ''s1''), Unlock, Lock, Go (AwaitDone 12 ''s2''), Unlock],
      ctxCount = 0\<rparr>"
  by (simp add: twoSinks_def Start_def emit_def emptyInformers_def Let_def)

section \<open>The function stored by Start\<close>

lemma sinkLoop_trace:
  "sinkLoop ctx h q ps ev =
     map (\<lambda>p. PredicateUpdate (pname p) ev) (takeWhile (\<lambda>p. Update p ev) ps) @
     (case dropWhile (\<lambda>p. Update p ev) ps of
        [] \<Rightarrow> [HandlerUpdate h ctx ev q]
      | p # rest \<Rightarrow> [PredicateUpdate (pname p) ev])"
  by (induction ps) simp_all

lemma sinkLoop_handler:
  "HandlerUpdate h' ctx' ev' q' \<in> set (sinkLoop ctx h q ps ev) \<longleftrightarrow>
     list_all (\<lambda>p. Update p ev) ps \<and> h' = h \<and> ctx' = ctx \<and> ev' = ev \<and> q' = q"
  by (induction ps) auto

lemma sinkLoop_handler_count:
  "count_list (sinkLoop ctx h q ps ev) (HandlerUpdate h ctx ev q) =
     (if list_all (\<lambda>p. Update p ev) ps then 1 else 0)"
  by (induction ps) auto

text \<open>
  C7. The function that \<^verbatim>\<open>Start\<close> stores under its fresh id is the closure over the
  arguments of that call. Run on an event, it calls the predicates of \<open>ps\<close> in list
  order up to and including the first one that rejects the event, and nothing after it;
  when none rejects, it then calls the handler's \<^verbatim>\<open>Update\<close> with the context, the event
  and the queue. So the handler is called (once) exactly when every predicate accepts.
\<close>

theorem Start_sink_applies_predicates_in_order:
  "map_of (sinks (snd (Start uuid ctx h q ps i))) uuid = Some (Sink ctx h q ps) \<and>
   handleFn (Sink ctx h q ps) ev =
     map (\<lambda>p. PredicateUpdate (pname p) ev) (takeWhile (\<lambda>p. Update p ev) ps) @
     (case dropWhile (\<lambda>p. Update p ev) ps of
        [] \<Rightarrow> [HandlerUpdate h ctx ev q]
      | p # rest \<Rightarrow> [PredicateUpdate (pname p) ev]) \<and>
   (HandlerUpdate h ctx ev q \<in> set (handleFn (Sink ctx h q ps) ev) \<longleftrightarrow>
      list_all (\<lambda>p. Update p ev) ps) \<and>
   count_list (handleFn (Sink ctx h q ps) ev) (HandlerUpdate h ctx ev q) =
      (if list_all (\<lambda>p. Update p ev) ps then 1 else 0)"
proof -
  have stored: "map_of (sinks (snd (Start uuid ctx h q ps i))) uuid = Some (Sink ctx h q ps)"
    by (simp add: Start_def Let_def update_conv')
  show ?thesis
    using stored
    by (simp add: sinkLoop_trace [symmetric] sinkLoop_handler sinkLoop_handler_count)
qed

text \<open>
  C9. \<^verbatim>\<open>Start\<close> returns a nil error, whatever the id, context, handler, queue,
  predicates and state, and the registration is made: afterwards the subscriber table
  maps the id to the closure over the arguments and every other id to what it mapped to,
  the session table is unchanged, and the events are the write lock taken, the goroutine
  started on the context with the id, and the lock released.
\<close>

theorem Start_returns_nil:
  "fst (Start uuid ctx h q ps i) = None \<and>
   map_of (sinks (snd (Start uuid ctx h q ps i))) = (map_of (sinks i))(uuid \<mapsto> Sink ctx h q ps) \<and>
   cdCaches (snd (Start uuid ctx h q ps i)) = cdCaches i \<and>
   newEvents i (snd (Start uuid ctx h q ps i)) = [Lock, Go (AwaitDone ctx uuid), Unlock]"
  by (simp add: Start_def Let_def update_conv' newEvents_def)

section \<open>The update handler\<close>

lemma sinksLoop_emit: "sinksLoop xs ev i = emit (fanOut xs ev) i"
  by (induction xs arbitrary: i) (auto simp: fanOut_def)

lemma SinkCall_notin_sinkLoop: "SinkCall s e \<notin> set (sinkLoop ctx h q ps ev)"
  by (induction ps) auto

lemma SinkCall_notin_handleFn: "SinkCall s e \<notin> set (handleFn f ev)"
  by (cases f) (simp add: SinkCall_notin_sinkLoop)

lemma count_SinkCall_handleFn [simp]: "count_list (handleFn f ev) (SinkCall s e) = 0"
  using SinkCall_notin_handleFn by (simp add: count_list_0_iff)

lemma count_SinkCall_fanOut:
  "count_list (fanOut xs ev) (SinkCall s ev) = count_list (map fst xs) s"
  by (induction xs) (auto simp: fanOut_def)

lemma SinkCall_in_fanOut:
  "SinkCall s e \<in> set (fanOut xs ev) \<longleftrightarrow> e = ev \<and> s \<in> fst ` set xs"
  by (induction xs) (auto simp: fanOut_def SinkCall_notin_handleFn)

lemma updateFunc_same:
  "GetResourceVersion old = GetResourceVersion obj \<Longrightarrow> updateFunc old obj i = i"
  by (simp add: updateFunc_def)

lemma updateFunc_differ:
  "GetResourceVersion old \<noteq> GetResourceVersion obj \<Longrightarrow>
   updateFunc old obj i =
     emit (RLock # fanOut (sinks i) \<lparr>ObjectOld = old, ObjectNew = obj\<rparr> @ [RUnlock]) i"
  by (simp add: updateFunc_def Let_def sinksLoop_emit)

text \<open>
  C3. Let the subscriber table have one entry per id, as a Go map has. When the old and
  the new object carry the same resource version, the update handler leaves the state
  as it is: no stored function is called, nothing is recorded. When the versions differ,
  the handler takes the read lock, calls every stored function, each followed by what
  that function does, and releases the lock; each id of the table is called exactly once
  with the pair, no call is made with another event or for an id outside the table, and
  both tables are unchanged.
\<close>

theorem updateFunc_fans_out_once:
  assumes "distinct (map fst (sinks i))"
  shows "(GetResourceVersion old = GetResourceVersion obj \<longrightarrow> updateFunc old obj i = i) \<and>
         (GetResourceVersion old \<noteq> GetResourceVersion obj \<longrightarrow>
            newEvents i (updateFunc old obj i) =
              RLock #
              concat (map (\<lambda>(sid, f). SinkCall sid \<lparr>ObjectOld = old, ObjectNew = obj\<rparr> #
                                        handleFn f \<lparr>ObjectOld = old, ObjectNew = obj\<rparr>) (sinks i)) @
              [RUnlock] \<and>
            (\<forall>(sid, f) \<in> set (sinks i).
               count_list (newEvents i (updateFunc old obj i))
                 (SinkCall sid \<lparr>ObjectOld = old, ObjectNew = obj\<rparr>) = 1) \<and>
            (\<forall>sid ev. SinkCall sid ev \<in> set (newEvents i (updateFunc old obj i)) \<longrightarrow>
               ev = \<lparr>ObjectOld = old, ObjectNew = obj\<rparr> \<and> sid \<in> fst ` set (sinks i)) \<and>
            sinks (updateFunc old obj i) = sinks i \<and>
            cdCaches (updateFunc old obj i) = cdCaches i)"
proof (intro conjI impI)
  assume "GetResourceVersion old = GetResourceVersion obj"
  then show "updateFunc old obj i = i" by (rule updateFunc_same)
next
  assume d: "GetResourceVersion old \<noteq> GetResourceVersion obj"
  let ?ev = "\<lparr>ObjectOld = old, ObjectNew = obj\<rparr>"
  have new: "newEvents i (updateFunc old obj i) = RLock # fanOut (sinks i) ?ev @ [RUnlock]"
    by (simp add: updateFunc_differ [OF d])
  show "newEvents i (updateFunc old obj i) =
          RLock # concat (map (\<lambda>(sid, f). SinkCall sid ?ev # handleFn f ?ev) (sinks i)) @ [RUnlock]"
    using new by (simp add: fanOut_def)
  show "\<forall>(sid, f) \<in> set (sinks i).
          count_list (newEvents i (updateFunc old obj i)) (SinkCall sid ?ev) = 1"
  proof (clarify)
    fix sid f assume "(sid, f) \<in> set (sinks i)"
    then have "sid \<in> set (map fst (sinks i))" by force
    with assms have "count_list (map fst (sinks i)) sid = 1"
      by (simp add: count_list_distinct)
    then show "count_list (newEvents i (updateFunc old obj i)) (SinkCall sid ?ev) = 1"
      by (simp add: new count_SinkCall_fanOut)
  qed
  show "\<forall>sid ev. SinkCall sid ev \<in> set (newEvents i (updateFunc old obj i)) \<longrightarrow>
          ev = ?ev \<and> sid \<in> fst ` set (sinks i)"
    by (simp add: new SinkCall_in_fanOut)
  show "sinks (updateFunc old obj i) = sinks i"
    by (simp add: updateFunc_differ [OF d])
  show "cdCaches (updateFunc old obj i) = cdCaches i"
    by (simp add: updateFunc_differ [OF d])
qed

theorem updateFunc_fans_out_once_witness:
  "distinct (map fst (sinks twoSinks)) \<and>
   GetResourceVersion objV1 \<noteq> GetResourceVersion objV2 \<and>
   updateFunc objV1 objV1 twoSinks = twoSinks \<and>
   newEvents twoSinks (updateFunc objV1 objV2 twoSinks) =
     [RLock,
      SinkCall ''s1'' \<lparr>ObjectOld = objV1, ObjectNew = objV2\<rparr>,
      PredicateUpdate ''always'' \<lparr>ObjectOld = objV1, ObjectNew = objV2\<rparr>,
      HandlerUpdate ''h1'' 11 \<lparr>ObjectOld = objV1, ObjectNew = objV2\<rparr> ''q1'',
      SinkCall ''s2'' \<lparr>ObjectOld = objV1, ObjectNew = objV2\<rparr>,
      PredicateUpdate ''never'' \<lparr>ObjectOld = objV1, ObjectNew = objV2\<rparr>,
      RUnlock] \<and>
   count_list (newEvents twoSinks (updateFunc objV1 objV2 twoSinks))
     (SinkCall ''s1'' \<lparr>ObjectOld = objV1, ObjectNew = objV2\<rparr>) = 1 \<and>
   count_list (newEvents twoSinks (updateFunc objV1 objV2 twoSinks))
     (SinkCall ''s2'' \<lparr>ObjectOld = objV1, ObjectNew = objV2\<rparr>) = 1"
proof -
  let ?ev = "\<lparr>ObjectOld = objV1, ObjectNew = objV2\<rparr>"
  have s: "sinks twoSinks =
      [(''s1'', Sink 11 ''h1'' ''q1'' [Predicate ''always'' (\<lambda>ev. True)]),
       (''s2'', Sink 12 ''h2'' ''q2'' [Predicate ''never'' (\<lambda>ev. False)])]"
    by (simp add: twoSinks_eval)
  have d: "distinct (map fst (sinks twoSinks))"
    by (simp add: s)
  have v: "GetResourceVersion objV1 \<noteq> GetResourceVersion objV2"
    by (simp add: objV1_def objV2_def)
  have same: "updateFunc objV1 objV1 twoSinks = twoSinks"
    using updateFunc_fans_out_once [OF d, of objV1 objV1] by blast
  note differ = updateFunc_fans_out_once [OF d, of objV1 objV2]
  from differ v have new: "newEvents twoSinks (updateFunc objV1 objV2 twoSinks) =
      RLock # concat (map (\<lambda>(sid, f). SinkCall sid ?ev # handleFn f ?ev) (sinks twoSinks)) @ [RUnlock]"
    by blast
  from differ v have cnt: "\<forall>(sid, f) \<in> set (sinks twoSinks).
      count_list (newEvents twoSinks (updateFunc objV1 objV2 twoSinks)) (SinkCall sid ?ev) = 1"
    by blast
  have new': "newEvents twoSinks (updateFunc objV1 objV2 twoSinks) =
     [RLock, SinkCall ''s1'' ?ev, PredicateUpdate ''always'' ?ev, HandlerUpdate ''h1'' 11 ?ev ''q1'',
      SinkCall ''s2'' ?ev, PredicateUpdate ''never'' ?ev, RUnlock]"
    unfolding new s by simp
  have c1: "count_list (newEvents twoSinks (updateFunc objV1 objV2 twoSinks)) (SinkCall ''s1'' ?ev) = 1"
    using cnt unfolding s by simp
  have c2: "count_list (newEvents twoSinks (updateFunc objV1 objV2 twoSinks)) (SinkCall ''s2'' ?ev) = 1"
    using cnt unfolding s by simp
  show ?thesis
    by (intro conjI d v same new' c1 c2)
qed

lemma wake_cases:
  "wake c e i = (case e of Go (AwaitDone ctx sid) \<Rightarrow> if ctx = c then Start_goroutine sid i else i
                 | _ \<Rightarrow> i)"
  by (cases "(c, e, i)" rule: wake.cases) simp_all

lemma map_of_sinks_Start_goroutine:
  "map_of (sinks (Start_goroutine sid i)) = (map_of (sinks i))(sid := None)"
  by (simp add: Start_goroutine_def Let_def delete_conv')

lemma cdCaches_Start_goroutine: "cdCaches (Start_goroutine sid i) = cdCaches i"
  by (simp add: Start_goroutine_def Let_def)

lemma map_of_sinks_wake:
  "map_of (sinks (wake c e i)) k =
     (if e = Go (AwaitDone c k) then None else map_of (sinks i) k)"
  by (cases "(c, e, i)" rule: wake.cases) (auto simp: map_of_sinks_Start_goroutine)

lemma cdCaches_wake: "cdCaches (wake c e i) = cdCaches i"
  by (cases "(c, e, i)" rule: wake.cases) (auto simp: cdCaches_Start_goroutine)

lemma map_of_sinks_wake_all:
  "map_of (sinks (foldl (\<lambda>j e. wake c e j) i es)) k =
     (if Go (AwaitDone c k) \<in> set es then None else map_of (sinks i) k)"
proof (induction es arbitrary: i)
  case Nil
  show ?case by simp
next
  case (Cons e es)
  have "map_of (sinks (foldl (\<lambda>j e. wake c e j) (wake c e i) es)) k =
      (if Go (AwaitDone c k) \<in> set es then None else map_of (sinks (wake c e i)) k)"
    by (rule Cons.IH)
  then show ?case
    by (auto simp: map_of_sinks_wake map_of_sinks_Start_goroutine)
qed

lemma cdCaches_wake_all: "cdCaches (foldl (\<lambda>j e. wake c e j) i es) = cdCaches i"
  by (induction es arbitrary: i) (simp_all add: cdCaches_wake)

lemma map_of_sinks_contextDone:
  "map_of (sinks (contextDone c i)) k =
     (if Go (AwaitDone c k) \<in> set (events i) then None else map_of (sinks i) k)"
  by (simp add: contextDone_def map_of_sinks_wake_all)

lemma cdCaches_contextDone: "cdCaches (contextDone c i) = cdCaches i"
  by (simp add: contextDone_def cdCaches_wake_all)

lemma no_call_without_entry:
  assumes "map_of (sinks j) sid = None"
  shows "SinkCall sid ev \<notin> set (newEvents j (updateFunc old obj j))"
proof (cases "GetResourceVersion old = GetResourceVersion obj")
  case True
  then show ?thesis by (simp add: updateFunc_same)
next
  case False
  from assms have "sid \<notin> fst ` set (sinks j)" by (simp add: map_of_eq_None_iff)
  then show ?thesis
    using False by (simp add: updateFunc_differ SinkCall_in_fanOut)
qed

lemma events_Start:
  "events (snd (Start sid ctx h q ps i)) = events i @ [Lock, Go (AwaitDone ctx sid), Unlock]"
  by (simp add: Start_def Let_def)

text \<open>
  C8. \<^verbatim>\<open>Start\<close> stores the entry of its id and starts a goroutine that waits on the
  subscriber's context and carries that id; once woken, that goroutine is the removal
  of that id. The removal takes the entry of the id from the subscriber table and
  nothing else: every other id maps to what it mapped to, the session table and the
  count of contexts are unchanged, and the only events are the write lock taken and
  released. So when the context ends after \<^verbatim>\<open>Start\<close>, the id has no entry, the ids
  of subscribers on other contexts map to what they mapped to before \<^verbatim>\<open>Start\<close>, and
  the session table is as before; the same holds when the context ends in any later
  state whose record still shows the goroutine. A notification handled after the
  removal, or in any state whose table has no entry for the id, does not call the
  function of the removed id.
\<close>

theorem Start_goroutine_removes_only_its_entry:
  "map_of (sinks (Start_goroutine sid i)) = (map_of (sinks i))(sid := None) \<and>
   cdCaches (Start_goroutine sid i) = cdCaches i \<and>
   ctxCount (Start_goroutine sid i) = ctxCount i \<and>
   newEvents i (Start_goroutine sid i) = [Lock, Unlock] \<and>
   SinkCall sid ev \<notin> set (newEvents (Start_goroutine sid i)
                               (updateFunc old obj (Start_goroutine sid i))) \<and>
   (\<forall>j. map_of (sinks j) sid = None \<longrightarrow>
        SinkCall sid ev \<notin> set (newEvents j (updateFunc old obj j))) \<and>
   Go (AwaitDone ctx sid) \<in> set (newEvents i (snd (Start sid ctx h q ps i))) \<and>
   map_of (sinks (snd (Start sid ctx h q ps i))) sid = Some (Sink ctx h q ps) \<and>
   wake ctx (Go (AwaitDone ctx sid)) = Start_goroutine sid \<and>
   map_of (sinks (contextDone ctx (snd (Start sid ctx h q ps i)))) sid = None \<and>
   (\<forall>k. map_of (sinks (contextDone ctx (snd (Start sid ctx h q ps i)))) k =
        (if k = sid \<or> Go (AwaitDone ctx k) \<in> set (events i) then None
         else map_of (sinks i) k)) \<and>
   cdCaches (contextDone ctx (snd (Start sid ctx h q ps i))) = cdCaches i \<and>
   SinkCall sid ev \<notin> set (newEvents (contextDone ctx (snd (Start sid ctx h q ps i)))
                               (updateFunc old obj (contextDone ctx (snd (Start sid ctx h q ps i))))) \<and>
   (\<forall>j. Go (AwaitDone ctx sid) \<in> set (events j) \<longrightarrow>
        map_of (sinks (contextDone ctx j)) sid = None \<and>
        cdCaches (contextDone ctx j) = cdCaches j \<and>
        (\<forall>k. Go (AwaitDone ctx k) \<notin> set (events j) \<longrightarrow>
             map_of (sinks (contextDone ctx j)) k = map_of (sinks j) k) \<and>
        SinkCall sid ev \<notin> set (newEvents (contextDone ctx j)
                                    (updateFunc old obj (contextDone ctx j))))"
proof -
  let ?g = "Start_goroutine sid i"
  let ?s = "snd (Start sid ctx h q ps i)"
  have g1: "map_of (sinks ?g) = (map_of (sinks i))(sid := None)"
    by (rule map_of_sinks_Start_goroutine)
  have g2: "cdCaches ?g = cdCaches i" "ctxCount ?g = ctxCount i" "newEvents i ?g = [Lock, Unlock]"
    by (simp_all add: Start_goroutine_def Let_def newEvents_def)
  from g1 have "map_of (sinks ?g) sid = None" by simp
  then have g3: "SinkCall sid ev \<notin> set (newEvents ?g (updateFunc old obj ?g))"
    by (rule no_call_without_entry)
  have g4: "\<forall>j. map_of (sinks j) sid = None \<longrightarrow>
      SinkCall sid ev \<notin> set (newEvents j (updateFunc old obj j))"
    by (simp add: no_call_without_entry)
  have s1: "Go (AwaitDone ctx sid) \<in> set (newEvents i ?s)"
    by (simp add: newEvents_def events_Start)
  have s2: "map_of (sinks ?s) sid = Some (Sink ctx h q ps)"
    by (simp add: Start_def Let_def update_conv')
  have w: "wake ctx (Go (AwaitDone ctx sid)) = Start_goroutine sid"
    by (rule ext) simp
  have d1: "map_of (sinks (contextDone ctx ?s)) sid = None"
    by (simp add: map_of_sinks_contextDone events_Start)
  have d2: "\<forall>k. map_of (sinks (contextDone ctx ?s)) k =
        (if k = sid \<or> Go (AwaitDone ctx k) \<in> set (events i) then None else map_of (sinks i) k)"
    by (auto simp: map_of_sinks_contextDone events_Start Start_def Let_def update_conv')
  have d3: "cdCaches (contextDone ctx ?s) = cdCaches i"
    by (simp add: cdCaches_contextDone Start_def Let_def)
  have d4: "SinkCall sid ev \<notin> set (newEvents (contextDone ctx ?s)
      (updateFunc old obj (contextDone ctx ?s)))"
    using d1 by (rule no_call_without_entry)
  have l: "\<forall>j. Go (AwaitDone ctx sid) \<in> set (events j) \<longrightarrow>
        map_of (sinks (contextDone ctx j)) sid = None \<and>
        cdCaches (contextDone ctx j) = cdCaches j \<and>
        (\<forall>k. Go (AwaitDone ctx k) \<notin> set (events j) \<longrightarrow>
             map_of (sinks (contextDone ctx j)) k = map_of (sinks j) k) \<and>
        SinkCall sid ev \<notin> set (newEvents (contextDone ctx j)
                                    (updateFunc old obj (contextDone ctx j)))"
  proof (intro allI impI)
    fix j :: referencedResourceInformers
    assume a: "Go (AwaitDone ctx sid) \<in> set (events j)"
    then have n: "map_of (sinks (contextDone ctx j)) sid = None"
      by (simp add: map_of_sinks_contextDone)
    show "map_of (sinks (contextDone ctx j)) sid = None \<and>
        cdCaches (contextDone ctx j) = cdCaches j \<and>
        (\<forall>k. Go (AwaitDone ctx k) \<notin> set (events j) \<longrightarrow>
             map_of (sinks (contextDone ctx j)) k = map_of (sinks j) k) \<and>
        SinkCall sid ev \<notin> set (newEvents (contextDone ctx j)
                                    (updateFunc old obj (contextDone ctx j)))"
      using n no_call_without_entry [OF n]
      by (simp add: cdCaches_contextDone map_of_sinks_contextDone)
  qed
  show ?thesis
    by (intro conjI g1 g2 g3 g4 s1 s2 w d1 d2 d3 d4 l)
qed

theorem Start_goroutine_removes_only_its_entry_witness:
  "Go (AwaitDone 12 ''s2'') \<in> set (events twoSinks) \<and>
   map_of (sinks twoSinks) ''s2'' = Some (Sink 12 ''h2'' ''q2'' [Predicate ''never'' (\<lambda>ev. False)]) \<and>
   map_of (sinks (contextDone 12 twoSinks)) ''s2'' = None \<and>
   map_of (sinks (contextDone 12 twoSinks)) ''s1'' =
     Some (Sink 11 ''h1'' ''q1'' [Predicate ''always'' (\<lambda>ev. True)]) \<and>
   cdCaches (contextDone 12 twoSinks) = [] \<and>
   SinkCall ''s2'' \<lparr>ObjectOld = objV1, ObjectNew = objV2\<rparr> \<notin>
     set (newEvents (contextDone 12 twoSinks) (updateFunc objV1 objV2 (contextDone 12 twoSinks))) \<and>
   map_of (sinks (Start_goroutine ''s2'' twoSinks)) ''s2'' = None \<and>
   map_of (sinks (Start_goroutine ''s2'' twoSinks)) ''s1'' =
     Some (Sink 11 ''h1'' ''q1'' [Predicate ''always'' (\<lambda>ev. True)]) \<and>
   newEvents twoSinks (Start_goroutine ''s2'' twoSinks) = [Lock, Unlock] \<and>
   newEvents (Start_goroutine ''s2'' twoSinks)
            (updateFunc objV1 objV2 (Start_goroutine ''s2'' twoSinks)) =
     [RLock,
      SinkCall ''s1'' \<lparr>ObjectOld = objV1, ObjectNew = objV2\<rparr>,
      PredicateUpdate ''always'' \<lparr>ObjectOld = objV1, ObjectNew = objV2\<rparr>,
      HandlerUpdate ''h1'' 11 \<lparr>ObjectOld = objV1, ObjectNew = objV2\<rparr> ''q1'',
      RUnlock]"
proof -
  let ?ev = "\<lparr>ObjectOld = objV1, ObjectNew = objV2\<rparr>"
  let ?one = "snd (Start ''s1'' 11 ''h1'' ''q1'' [Predicate ''always'' (\<lambda>ev. True)] emptyInformers)"
  let ?j = "Start_goroutine ''s2'' twoSinks"
  have two: "snd (Start ''s2'' 12 ''h2'' ''q2'' [Predicate ''never'' (\<lambda>ev. False)] ?one) = twoSinks"
    by (simp add: twoSinks_def)
  have s: "sinks twoSinks =
      [(''s1'', Sink 11 ''h1'' ''q1'' [Predicate ''always'' (\<lambda>ev. True)]),
       (''s2'', Sink 12 ''h2'' ''q2'' [Predicate ''never'' (\<lambda>ev. False)])]"
    by (simp add: twoSinks_eval)
  have one: "events ?one = [Lock, Go (AwaitDone 11 ''s1''), Unlock]"
      "sinks ?one = [(''s1'', Sink 11 ''h1'' ''q1'' [Predicate ''always'' (\<lambda>ev. True)])]"
      "cdCaches ?one = []"
    by (simp_all add: Start_def Let_def emptyInformers_def)
  note u = Start_goroutine_removes_only_its_entry
    [where sid = "''s2''" and i = ?one and ev = ?ev and old = objV1 and obj = objV2 and ctx = 12
       and h = "''h2''" and q = "''q2''" and ps = "[Predicate ''never'' (\<lambda>ev. False)]",
     unfolded two]
  from u have p1: "Go (AwaitDone 12 ''s2'') \<in> set (newEvents ?one twoSinks)" by blast
  then have a1: "Go (AwaitDone 12 ''s2'') \<in> set (events twoSinks)"
    by (simp add: newEvents_def in_set_dropD)
  from u have a2: "map_of (sinks twoSinks) ''s2'' =
      Some (Sink 12 ''h2'' ''q2'' [Predicate ''never'' (\<lambda>ev. False)])" by blast
  from u have a3: "map_of (sinks (contextDone 12 twoSinks)) ''s2'' = None" by blast
  from u have k: "\<forall>k. map_of (sinks (contextDone 12 twoSinks)) k =
        (if k = ''s2'' \<or> Go (AwaitDone 12 k) \<in> set (events ?one) then None
         else map_of (sinks ?one) k)" by blast
  have a4: "map_of (sinks (contextDone 12 twoSinks)) ''s1'' =
      Some (Sink 11 ''h1'' ''q1'' [Predicate ''always'' (\<lambda>ev. True)])"
    unfolding k [rule_format] one by simp
  from u have a5: "cdCaches (contextDone 12 twoSinks) = []" by (simp add: one)
  from u have a6: "SinkCall ''s2'' ?ev \<notin>
     set (newEvents (contextDone 12 twoSinks) (updateFunc objV1 objV2 (contextDone 12 twoSinks)))"
    by blast
  note t = Start_goroutine_removes_only_its_entry
    [where sid = "''s2''" and i = twoSinks and ev = ?ev and old = objV1 and obj = objV2 and ctx = 12
       and h = "''h2''" and q = "''q2''" and ps = "[]"]
  from t have m: "map_of (sinks ?j) = (map_of (sinks twoSinks))(''s2'' := None)" by blast
  have a: "map_of (sinks ?j) ''s2'' = None"
    unfolding m by simp
  have b: "map_of (sinks ?j) ''s1'' = Some (Sink 11 ''h1'' ''q1'' [Predicate ''always'' (\<lambda>ev. True)])"
    unfolding m s by simp
  from t have c: "newEvents twoSinks ?j = [Lock, Unlock]" by blast
  have v: "GetResourceVersion objV1 \<noteq> GetResourceVersion objV2"
    by (simp add: objV1_def objV2_def)
  have sj: "sinks ?j = [(''s1'', Sink 11 ''h1'' ''q1'' [Predicate ''always'' (\<lambda>ev. True)])]"
    by (simp add: Start_goroutine_def Let_def s)
  have e: "newEvents ?j (updateFunc objV1 objV2 ?j) =
     [RLock, SinkCall ''s1'' ?ev, PredicateUpdate ''always'' ?ev,
      HandlerUpdate ''h1'' 11 ?ev ''q1'', RUnlock]"
    unfolding updateFunc_differ [OF v] sj by (simp add: fanOut_def)
  show ?thesis by (intro conjI a1 a2 a3 a4 a5 a6 a b c e)
qed



section \<open>Declaring watches\<close>

lemma update_absent: "map_of al k = None \<Longrightarrow> AList.update k v al = al @ [(k, v)]"
  by (induction al) (auto split: if_splits)

lemma watchStep_present:
  "map_of (cdCaches i) gc \<noteq> None \<Longrightarrow> watchStep ext cl gc i = (cl, i)"
  by (simp add: watchStep_def)

lemma watchStep_fails:
  assumes "map_of (cdCaches i) gc = None" and "constructionFails ext (resolveCluster cl i) gc"
  shows "fst (watchStep ext cl gc i) = Some (resolveCluster cl i) \<and>
         (snd (watchStep ext cl gc i) = emit [Debug ''failed creating a cache''] i \<or>
          snd (watchStep ext cl gc i) =
            emit [CancelFn (ctxCount i), Debug ''failed getting informer'']
              (i\<lparr>ctxCount := Suc (ctxCount i)\<rparr>) \<or>
          snd (watchStep ext cl gc i) =
            emit [CancelFn (ctxCount i), Debug ''failed adding event handler'']
              (i\<lparr>ctxCount := Suc (ctxCount i)\<rparr>))"
  using assms
  by (auto simp: watchStep_def constructionFails_def resolveCluster_def Let_def
      split: sum.splits option.splits)

lemma watchStep_succeeds:
  assumes "map_of (cdCaches i) gc = None" and "\<not> constructionFails ext (resolveCluster cl i) gc"
  shows "\<exists>ca. fst (watchStep ext cl gc i) = Some (resolveCluster cl i) \<and>
           cdCaches (snd (watchStep ext cl gc i)) =
             cdCaches i @ [(gc, \<lparr>cache = ca, cancelFn = ctxCount i\<rparr>)] \<and>
           ctxCount (snd (watchStep ext cl gc i)) = Suc (ctxCount i) \<and>
           events (snd (watchStep ext cl gc i)) =
             events i @ [Go (CacheStart ca (ctxCount i)), Go (WaitForCacheSync ca (ctxCount i))]"
  using assms
  by (auto simp: watchStep_def constructionFails_def resolveCluster_def Let_def
      update_absent split: sum.splits option.splits)

lemma watchStep_frame:
  "sinks (snd (watchStep ext cl gc i)) = sinks i \<and>
   cluster (snd (watchStep ext cl gc i)) = cluster i"
  by (auto simp: watchStep_def Let_def split: sum.splits option.splits)

lemma watchStep_resolve:
  "resolveCluster (fst (watchStep ext cl gc i)) (snd (watchStep ext cl gc i)) = resolveCluster cl i"
  by (auto simp: watchStep_def Let_def resolveCluster_def split: sum.splits option.splits)

lemma watchStep_map_of:
  "map_of (cdCaches (snd (watchStep ext cl gc i))) k =
     (if k = gc \<and> map_of (cdCaches i) gc = None \<and> \<not> constructionFails ext (resolveCluster cl i) gc
      then Some \<lparr>cache = projr (cache_New ext (GetConfig (resolveCluster cl i))),
                 cancelFn = ctxCount i\<rparr>
      else map_of (cdCaches i) k)"
  by (auto simp: watchStep_def constructionFails_def resolveCluster_def Let_def update_conv'
      split: sum.splits option.splits)

lemma watchStep_keeps:
  "map_of (cdCaches i) k = Some v \<Longrightarrow> map_of (cdCaches (snd (watchStep ext cl gc i))) k = Some v"
  by (auto simp: watchStep_map_of)

lemma watchStep_count:
  assumes "map_of (cdCaches i) k \<noteq> None"
  shows "count_list (map fst (cdCaches (snd (watchStep ext cl gc i)))) k =
         count_list (map fst (cdCaches i)) k"
proof (cases "map_of (cdCaches i) gc = None")
  case False
  then show ?thesis by (simp add: watchStep_present)
next
  case absent: True
  with assms have ne: "gc \<noteq> k" by auto
  show ?thesis
  proof (cases "constructionFails ext (resolveCluster cl i) gc")
    case True
    from watchStep_fails [OF absent True] show ?thesis by auto
  next
    case False
    from watchStep_succeeds [OF absent False] ne show ?thesis by auto
  qed
qed

lemma watchStep_distinct:
  assumes "distinct (map fst (cdCaches i))"
  shows "distinct (map fst (cdCaches (snd (watchStep ext cl gc i))))"
proof (cases "map_of (cdCaches i) gc = None")
  case False
  then show ?thesis using assms by (simp add: watchStep_present)
next
  case absent: True
  then have notin: "gc \<notin> fst ` set (cdCaches i)" by (simp add: map_of_eq_None_iff)
  show ?thesis
  proof (cases "constructionFails ext (resolveCluster cl i) gc")
    case True
    from watchStep_fails [OF absent True] assms show ?thesis by auto
  next
    case False
    from watchStep_succeeds [OF absent False] assms notin show ?thesis by auto
  qed
qed

lemma watchLoop_keeps:
  "map_of (cdCaches i) k = Some v \<Longrightarrow> map_of (cdCaches (watchLoop ext cl gcs i)) k = Some v"
proof (induction gcs arbitrary: cl i)
  case Nil
  then show ?case by simp
next
  case (Cons gc gcs)
  obtain cl' i' where st: "watchStep ext cl gc i = (cl', i')" by (cases "watchStep ext cl gc i")
  then have "i' = snd (watchStep ext cl gc i)" by simp
  with Cons.prems have "map_of (cdCaches i') k = Some v" by (simp add: watchStep_keeps)
  then show ?case using st by (simp add: Cons.IH)
qed

lemma watchLoop_count:
  "map_of (cdCaches i) k \<noteq> None \<Longrightarrow>
   count_list (map fst (cdCaches (watchLoop ext cl gcs i))) k = count_list (map fst (cdCaches i)) k"
proof (induction gcs arbitrary: cl i)
  case Nil
  then show ?case by simp
next
  case (Cons gc gcs)
  obtain cl' i' where st: "watchStep ext cl gc i = (cl', i')" by (cases "watchStep ext cl gc i")
  then have i': "i' = snd (watchStep ext cl gc i)" by simp
  from Cons.prems obtain v where "map_of (cdCaches i) k = Some v" by auto
  then have "map_of (cdCaches i') k \<noteq> None" by (simp add: i' watchStep_keeps)
  then have "count_list (map fst (cdCaches (watchLoop ext cl' gcs i'))) k =
      count_list (map fst (cdCaches i')) k" by (rule Cons.IH)
  also have "\<dots> = count_list (map fst (cdCaches i)) k"
    unfolding i' using Cons.prems by (rule watchStep_count)
  finally show ?case using st by simp
qed

lemma watchLoop_distinct:
  "distinct (map fst (cdCaches i)) \<Longrightarrow> distinct (map fst (cdCaches (watchLoop ext cl gcs i)))"
proof (induction gcs arbitrary: cl i)
  case Nil
  then show ?case by simp
next
  case (Cons gc gcs)
  obtain cl' i' where st: "watchStep ext cl gc i = (cl', i')" by (cases "watchStep ext cl gc i")
  then have i': "i' = snd (watchStep ext cl gc i)" by simp
  have "distinct (map fst (cdCaches i'))" unfolding i' using Cons.prems by (rule watchStep_distinct)
  then show ?case using st by (simp add: Cons.IH)
qed

lemma watchLoop_failing_absent:
  "map_of (cdCaches i) k = None \<Longrightarrow> constructionFails ext (resolveCluster cl i) k \<Longrightarrow>
   map_of (cdCaches (watchLoop ext cl gcs i)) k = None"
proof (induction gcs arbitrary: cl i)
  case Nil
  then show ?case by simp
next
  case (Cons gc gcs)
  obtain cl' i' where st: "watchStep ext cl gc i = (cl', i')" by (cases "watchStep ext cl gc i")
  then have i': "i' = snd (watchStep ext cl gc i)" and cl': "cl' = fst (watchStep ext cl gc i)"
    by simp_all
  have r: "resolveCluster cl' i' = resolveCluster cl i"
    unfolding i' cl' by (rule watchStep_resolve)
  have "map_of (cdCaches i') k = None"
    unfolding i' using Cons.prems by (auto simp: watchStep_map_of)
  moreover have "constructionFails ext (resolveCluster cl' i') k"
    using Cons.prems(2) by (simp add: r)
  ultimately have "map_of (cdCaches (watchLoop ext cl' gcs i')) k = None" by (rule Cons.IH)
  then show ?case using st by simp
qed

lemma watchLoop_registers:
  "k \<in> set gcs \<Longrightarrow> \<not> constructionFails ext (resolveCluster cl i) k \<Longrightarrow>
   map_of (cdCaches (watchLoop ext cl gcs i)) k \<noteq> None"
proof (induction gcs arbitrary: cl i)
  case Nil
  then show ?case by simp
next
  case (Cons gc gcs)
  obtain cl' i' where st: "watchStep ext cl gc i = (cl', i')" by (cases "watchStep ext cl gc i")
  then have i': "i' = snd (watchStep ext cl gc i)" and cl': "cl' = fst (watchStep ext cl gc i)"
    by simp_all
  have r: "resolveCluster cl' i' = resolveCluster cl i"
    unfolding i' cl' by (rule watchStep_resolve)
  show ?case
  proof (cases "k = gc")
    case True
    with Cons.prems(2) have "map_of (cdCaches i') k \<noteq> None"
      unfolding i' by (auto simp: watchStep_map_of)
    then obtain v where "map_of (cdCaches i') k = Some v" by auto
    then have "map_of (cdCaches (watchLoop ext cl' gcs i')) k = Some v" by (rule watchLoop_keeps)
    then show ?thesis using st by simp
  next
    case False
    with Cons.prems(1) have "k \<in> set gcs" by simp
    moreover have "\<not> constructionFails ext (resolveCluster cl' i') k"
      using Cons.prems(2) by (simp add: r)
    ultimately have "map_of (cdCaches (watchLoop ext cl' gcs i')) k \<noteq> None" by (rule Cons.IH)
    then show ?thesis using st by simp
  qed
qed

lemma watchCalls_keeps:
  "map_of (cdCaches i) k = Some v \<Longrightarrow> map_of (cdCaches (watchCalls calls i)) k = Some v"
proof (induction calls arbitrary: i)
  case Nil
  then show ?case by simp
next
  case (Cons c calls)
  obtain ext cl gcs where c: "c = (ext, cl, gcs)" by (cases c)
  have "map_of (cdCaches (WatchReferencedResources ext cl gcs i)) k = Some v"
    using Cons.prems by (simp add: WatchReferencedResources_def watchLoop_keeps)
  then show ?case unfolding c by (simp add: Cons.IH)
qed

lemma watchCalls_count:
  "map_of (cdCaches i) k \<noteq> None \<Longrightarrow>
   count_list (map fst (cdCaches (watchCalls calls i))) k = count_list (map fst (cdCaches i)) k"
proof (induction calls arbitrary: i)
  case Nil
  then show ?case by simp
next
  case (Cons c calls)
  obtain ext cl gcs where c: "c = (ext, cl, gcs)" by (cases c)
  let ?j = "WatchReferencedResources ext cl gcs i"
  from Cons.prems obtain v where v: "map_of (cdCaches i) k = Some v" by auto
  then have "map_of (cdCaches ?j) k = Some v"
    by (simp add: WatchReferencedResources_def watchLoop_keeps)
  then have "count_list (map fst (cdCaches (watchCalls calls ?j))) k =
      count_list (map fst (cdCaches ?j)) k" by (simp add: Cons.IH)
  also have "\<dots> = count_list (map fst (cdCaches i)) k"
    using Cons.prems by (simp add: WatchReferencedResources_def watchLoop_count)
  finally show ?case unfolding c by simp
qed

text \<open>
  C4. A key that already has an entry in the session table is skipped: the round of the
  loop for it returns the state (and the cluster variable) as they were, and a call
  with only that key adds nothing but the read lock taken and released. After any
  sequence of calls, with any worlds, cluster arguments and key lists, the key still
  maps to the same entry (the same cache and the same cancel function), and the
  table holds as many entries for the key as before: no second session is made for it.
\<close>

theorem watch_skips_present_keys:
  assumes "map_of (cdCaches i) gc = Some cdc"
  shows "watchStep ext cl gc i = (cl, i) \<and>
         WatchReferencedResources ext cl [gc] i = emit [RLock, RUnlock] i \<and>
         map_of (cdCaches (watchCalls calls i)) gc = Some cdc \<and>
         count_list (map fst (cdCaches (watchCalls calls i))) gc =
           count_list (map fst (cdCaches i)) gc"
proof -
  have p: "map_of (cdCaches i) gc \<noteq> None" using assms by simp
  have "watchStep ext cl gc i = (cl, i)" using p by (rule watchStep_present)
  moreover have "WatchReferencedResources ext cl [gc] i = emit [RLock, RUnlock] i"
    using assms by (simp add: WatchReferencedResources_def watchStep_present)
  moreover have "map_of (cdCaches (watchCalls calls i)) gc = Some cdc"
    using assms by (rule watchCalls_keeps)
  moreover have "count_list (map fst (cdCaches (watchCalls calls i))) gc =
      count_list (map fst (cdCaches i)) gc"
    using p by (rule watchCalls_count)
  ultimately show ?thesis by simp
qed

theorem watch_skips_present_keys_witness:
  "map_of (cdCaches watchedAB) keyA = Some \<lparr>cache = 7, cancelFn = 0\<rparr> \<and>
   watchStep extHealthy None keyA watchedAB = (None, watchedAB) \<and>
   map_of (cdCaches (watchCalls [(extHealthy, None, [keyA, keyB]), (extListFails, None, [keyB, keyA])]
      watchedAB)) keyA = Some \<lparr>cache = 7, cancelFn = 0\<rparr> \<and>
   count_list (map fst (cdCaches (watchCalls
      [(extHealthy, None, [keyA, keyB]), (extListFails, None, [keyB, keyA])] watchedAB))) keyA = 1"
proof -
  have p: "map_of (cdCaches watchedAB) keyA = Some \<lparr>cache = 7, cancelFn = 0\<rparr>"
    by (simp add: watchedAB_eval)
  have c: "count_list (map fst (cdCaches watchedAB)) keyA = 1"
    by (simp add: watchedAB_eval)
  note t = watch_skips_present_keys [OF p, of extHealthy None
      "[(extHealthy, None, [keyA, keyB]), (extListFails, None, [keyB, keyA])]"]
  from t have a: "watchStep extHealthy None keyA watchedAB = (None, watchedAB)" by blast
  from t have b: "map_of (cdCaches (watchCalls
      [(extHealthy, None, [keyA, keyB]), (extListFails, None, [keyB, keyA])] watchedAB)) keyA =
      Some \<lparr>cache = 7, cancelFn = 0\<rparr>" by blast
  from t c have d: "count_list (map fst (cdCaches (watchCalls
      [(extHealthy, None, [keyA, keyB]), (extListFails, None, [keyB, keyA])] watchedAB))) keyA = 1"
    by simp
  show ?thesis by (intro conjI p a b d)
qed

lemma isDebug_cases: "isDebug e = (case e of Debug m \<Rightarrow> True | _ \<Rightarrow> False)"
  by (cases e) simp_all

lemma watchStep_debug_count:
  "length (filter isDebug (events (snd (watchStep ext cl gc i)))) =
     length (filter isDebug (events i)) +
     (if map_of (cdCaches i) gc = None \<and> constructionFails ext (resolveCluster cl i) gc
      then 1 else 0)"
proof (cases "map_of (cdCaches i) gc = None")
  case False
  then show ?thesis by (simp add: watchStep_present)
next
  case absent: True
  show ?thesis
  proof (cases "constructionFails ext (resolveCluster cl i) gc")
    case True
    from watchStep_fails [OF absent True] absent True show ?thesis by auto
  next
    case False
    from watchStep_succeeds [OF absent False] absent False show ?thesis by auto
  qed
qed

lemma watchStep_failing_later:
  "(map_of (cdCaches (snd (watchStep ext cl gc i))) k = None \<and>
      constructionFails ext (resolveCluster cl i) k) =
   (map_of (cdCaches i) k = None \<and> constructionFails ext (resolveCluster cl i) k)"
  by (auto simp: watchStep_map_of)

lemma watchLoop_Cons:
  "watchLoop ext cl (gc # gcs) i =
     watchLoop ext (fst (watchStep ext cl gc i)) gcs (snd (watchStep ext cl gc i))"
  by (simp add: split_beta)

lemma watchLoop_debug_count:
  "length (filter isDebug (events (watchLoop ext cl gcs i))) =
     length (filter isDebug (events i)) +
     length (filter (\<lambda>k. map_of (cdCaches i) k = None \<and>
                          constructionFails ext (resolveCluster cl i) k) gcs)"
proof (induction gcs arbitrary: cl i)
  case Nil
  show ?case by simp
next
  case (Cons gc gcs)
  let ?cl = "fst (watchStep ext cl gc i)"
  let ?i = "snd (watchStep ext cl gc i)"
  have r: "resolveCluster ?cl ?i = resolveCluster cl i"
    by (rule watchStep_resolve)
  have same: "filter (\<lambda>k. map_of (cdCaches ?i) k = None \<and>
                          constructionFails ext (resolveCluster ?cl ?i) k) gcs =
      filter (\<lambda>k. map_of (cdCaches i) k = None \<and>
                          constructionFails ext (resolveCluster cl i) k) gcs"
    unfolding r by (simp add: watchStep_failing_later)
  have "length (filter isDebug (events (watchLoop ext ?cl gcs ?i))) =
      length (filter isDebug (events ?i)) +
      length (filter (\<lambda>k. map_of (cdCaches ?i) k = None \<and>
                          constructionFails ext (resolveCluster ?cl ?i) k) gcs)"
    by (rule Cons.IH)
  then have "length (filter isDebug (events (watchLoop ext cl (gc # gcs) i))) =
      length (filter isDebug (events i)) +
      (if map_of (cdCaches i) gc = None \<and> constructionFails ext (resolveCluster cl i) gc
       then 1 else 0) +
      length (filter (\<lambda>k. map_of (cdCaches i) k = None \<and>
                          constructionFails ext (resolveCluster cl i) k) gcs)"
    unfolding watchLoop_Cons same watchStep_debug_count .
  then show ?case by simp
qed

lemma watchStep_events_prefix:
  "\<exists>es. events (snd (watchStep ext cl gc i)) = events i @ es"
proof (cases "map_of (cdCaches i) gc = None")
  case False
  then show ?thesis by (simp add: watchStep_present)
next
  case absent: True
  show ?thesis
  proof (cases "constructionFails ext (resolveCluster cl i) gc")
    case True
    from watchStep_fails [OF absent True] show ?thesis by auto
  next
    case False
    from watchStep_succeeds [OF absent False] show ?thesis by auto
  qed
qed

lemma watchLoop_events_prefix:
  "\<exists>es. events (watchLoop ext cl gcs i) = events i @ es"
proof (induction gcs arbitrary: cl i)
  case Nil
  show ?case by simp
next
  case (Cons gc gcs)
  let ?cl = "fst (watchStep ext cl gc i)"
  let ?i = "snd (watchStep ext cl gc i)"
  obtain es where a: "events ?i = events i @ es"
    using watchStep_events_prefix by blast
  obtain es' where b: "events (watchLoop ext ?cl gcs ?i) = events ?i @ es'"
    using Cons.IH by blast
  show ?case
    unfolding watchLoop_Cons b a by simp
qed

lemma Watch_debug_count:
  "length (filter isDebug (newEvents i (WatchReferencedResources ext cl gcs i))) =
     length (filter (\<lambda>k. map_of (cdCaches i) k = None \<and>
                          constructionFails ext (resolveCluster cl i) k) gcs)"
proof -
  let ?j = "emit [RLock] i"
  have r: "resolveCluster cl ?j = resolveCluster cl i"
    by (cases cl) (simp_all add: resolveCluster_def)
  obtain es where es: "events (watchLoop ext cl gcs ?j) = events ?j @ es"
    using watchLoop_events_prefix by blast
  have "length (filter isDebug (events (watchLoop ext cl gcs ?j))) =
      length (filter isDebug (events ?j)) +
      length (filter (\<lambda>k. map_of (cdCaches ?j) k = None \<and>
                          constructionFails ext (resolveCluster cl ?j) k) gcs)"
    by (rule watchLoop_debug_count)
  then have "length (filter isDebug es) =
      length (filter (\<lambda>k. map_of (cdCaches i) k = None \<and>
                          constructionFails ext (resolveCluster cl i) k) gcs)"
    unfolding es r by simp
  moreover have "newEvents i (WatchReferencedResources ext cl gcs i) = RLock # es @ [RUnlock]"
    by (simp add: WatchReferencedResources_def newEvents_def es)
  ultimately show ?thesis by simp
qed

text \<open>
  C6. Let a key have no entry, and let building its watch fail (the cache, the informer
  or the handler registration). Then the round for the key leaves the session table as
  it was, logs one failure, cancels within the round every context it made, and starts
  no goroutine. A call that has the key among its keys ends with the key still absent
  and with an entry for every key of the call whose watch can be built. The call logs
  one failure for each of its keys (each occurrence) that has no entry and whose watch
  cannot be built, so the rounds after a failed one are run, also when it is the cache
  that cannot be made; and a call that begins with the key is the loop over the rest of
  its keys, run from the state the failed round leaves. The function has no result, so
  no error reaches the caller.
\<close>

theorem failed_construction_is_skipped:
  assumes absent: "map_of (cdCaches i) gc = None"
    and fails: "constructionFails ext (resolveCluster cl i) gc"
    and mem: "gc \<in> set gcs"
  shows "cdCaches (snd (watchStep ext cl gc i)) = cdCaches i \<and>
         (\<forall>c. ctxCount i \<le> c \<and> c < ctxCount (snd (watchStep ext cl gc i)) \<longrightarrow>
              CancelFn c \<in> set (newEvents i (snd (watchStep ext cl gc i)))) \<and>
         (\<forall>g. Go g \<notin> set (newEvents i (snd (watchStep ext cl gc i)))) \<and>
         map_of (cdCaches (WatchReferencedResources ext cl gcs i)) gc = None \<and>
         (\<forall>k \<in> set gcs. \<not> constructionFails ext (resolveCluster cl i) k \<longrightarrow>
              map_of (cdCaches (WatchReferencedResources ext cl gcs i)) k \<noteq> None) \<and>
         length (filter isDebug (newEvents i (snd (watchStep ext cl gc i)))) = 1 \<and>
         length (filter isDebug (newEvents i (WatchReferencedResources ext cl gcs i))) =
           length (filter (\<lambda>k. map_of (cdCaches i) k = None \<and>
                                constructionFails ext (resolveCluster cl i) k) gcs) \<and>
         (\<forall>rest. WatchReferencedResources ext cl (gc # rest) i =
              emit [RUnlock]
                (watchLoop ext (Some (resolveCluster cl i)) rest
                   (snd (watchStep ext cl gc (emit [RLock] i)))))"
proof -
  let ?i' = "snd (watchStep ext cl gc i)"
  let ?j = "emit [RLock] i"
  have r: "resolveCluster cl ?j = resolveCluster cl i"
    by (cases cl) (simp_all add: resolveCluster_def)
  from watchStep_fails [OF absent fails]
  have step: "cdCaches ?i' = cdCaches i \<and>
      (\<forall>c. ctxCount i \<le> c \<and> c < ctxCount ?i' \<longrightarrow> CancelFn c \<in> set (newEvents i ?i')) \<and>
      (\<forall>g. Go g \<notin> set (newEvents i ?i'))"
    by (auto simp: newEvents_def)
  from watchStep_fails [OF absent fails]
  have one: "length (filter isDebug (newEvents i ?i')) = 1"
    by (auto simp: newEvents_def)
  have "map_of (cdCaches (watchLoop ext cl gcs ?j)) gc = None"
    using absent fails by (simp add: watchLoop_failing_absent r)
  then have whole: "map_of (cdCaches (WatchReferencedResources ext cl gcs i)) gc = None"
    by (simp add: WatchReferencedResources_def)
  have others: "\<forall>k \<in> set gcs. \<not> constructionFails ext (resolveCluster cl i) k \<longrightarrow>
      map_of (cdCaches (WatchReferencedResources ext cl gcs i)) k \<noteq> None"
  proof (intro ballI impI)
    fix k assume "k \<in> set gcs" and "\<not> constructionFails ext (resolveCluster cl i) k"
    then have "map_of (cdCaches (watchLoop ext cl gcs ?j)) k \<noteq> None"
      by (simp add: watchLoop_registers r)
    then show "map_of (cdCaches (WatchReferencedResources ext cl gcs i)) k \<noteq> None"
      by (simp add: WatchReferencedResources_def)
  qed
  have absent': "map_of (cdCaches ?j) gc = None" using absent by simp
  have fails': "constructionFails ext (resolveCluster cl ?j) gc" using fails by (simp add: r)
  have "fst (watchStep ext cl gc ?j) = Some (resolveCluster cl i)"
    using watchStep_fails [OF absent' fails'] by (simp add: r)
  then have goes_on: "\<forall>rest. WatchReferencedResources ext cl (gc # rest) i =
      emit [RUnlock] (watchLoop ext (Some (resolveCluster cl i)) rest (snd (watchStep ext cl gc ?j)))"
    unfolding WatchReferencedResources_def watchLoop_Cons by simp
  show ?thesis
    using step one whole others Watch_debug_count [of i ext cl gcs] goes_on by blast
qed

theorem failed_construction_is_skipped_witness:
  "map_of (cdCaches emptyInformers) keyB = None \<and>
   constructionFails extInformerFailsForB (resolveCluster None emptyInformers) keyB \<and>
   keyB \<in> set [keyB, keyA] \<and>
   cdCaches (snd (watchStep extInformerFailsForB None keyB emptyInformers)) = [] \<and>
   newEvents emptyInformers (snd (watchStep extInformerFailsForB None keyB emptyInformers)) =
     [CancelFn 0, Debug ''failed getting informer''] \<and>
   map_of (cdCaches (WatchReferencedResources extInformerFailsForB None [keyB, keyA] emptyInformers))
     keyB = None \<and>
   map_of (cdCaches (WatchReferencedResources extInformerFailsForB None [keyB, keyA] emptyInformers))
     keyA \<noteq> None \<and>
   constructionFails extCacheFails (resolveCluster None emptyInformers) keyA \<and>
   constructionFails extCacheFails (resolveCluster None emptyInformers) keyB \<and>
   length (filter isDebug
     (newEvents emptyInformers (WatchReferencedResources extCacheFails None [keyA, keyB] emptyInformers))) = 2 \<and>
   newEvents emptyInformers (WatchReferencedResources extCacheFails None [keyA, keyB] emptyInformers) =
     [RLock, Debug ''failed creating a cache'', Debug ''failed creating a cache'', RUnlock]"
proof -
  have absent: "map_of (cdCaches emptyInformers) keyB = None"
    and absentA: "map_of (cdCaches emptyInformers) keyA = None"
    by (simp_all add: emptyInformers_def)
  have fails: "constructionFails extInformerFailsForB (resolveCluster None emptyInformers) keyB"
    by (simp add: constructionFails_def extInformerFailsForB_def extHealthy_def keyB_def)
  have ok: "\<not> constructionFails extInformerFailsForB (resolveCluster None emptyInformers) keyA"
    by (simp add: constructionFails_def extInformerFailsForB_def extHealthy_def keyA_def)
  have mem: "keyB \<in> set [keyB, keyA]" by simp
  have ev: "newEvents emptyInformers (snd (watchStep extInformerFailsForB None keyB emptyInformers)) =
      [CancelFn 0, Debug ''failed getting informer'']"
    by (simp add: watchStep_def extInformerFailsForB_def extHealthy_def keyB_def emptyInformers_def
        newEvents_def emit_def Let_def)
  note t = failed_construction_is_skipped [OF absent fails mem]
  from t have "cdCaches (snd (watchStep extInformerFailsForB None keyB emptyInformers)) =
      cdCaches emptyInformers" by blast
  then have a: "cdCaches (snd (watchStep extInformerFailsForB None keyB emptyInformers)) = []"
    by (simp add: emptyInformers_def)
  from t have b: "map_of (cdCaches (WatchReferencedResources extInformerFailsForB None
      [keyB, keyA] emptyInformers)) keyB = None" by blast
  from t have "\<forall>k \<in> set [keyB, keyA].
      \<not> constructionFails extInformerFailsForB (resolveCluster None emptyInformers) k \<longrightarrow>
      map_of (cdCaches (WatchReferencedResources extInformerFailsForB None
        [keyB, keyA] emptyInformers)) k \<noteq> None" by blast
  with ok have c: "map_of (cdCaches (WatchReferencedResources extInformerFailsForB None
      [keyB, keyA] emptyInformers)) keyA \<noteq> None" by simp
  have cf: "constructionFails extCacheFails c k" for c k
    by (simp add: constructionFails_def extCacheFails_def extHealthy_def)
  have memA: "keyA \<in> set [keyA, keyB]" by simp
  note u = failed_construction_is_skipped [OF absentA cf memA, of None]
  from u have "length (filter isDebug (newEvents emptyInformers
      (WatchReferencedResources extCacheFails None [keyA, keyB] emptyInformers))) =
      length (filter (\<lambda>k. map_of (cdCaches emptyInformers) k = None \<and>
         constructionFails extCacheFails (resolveCluster None emptyInformers) k) [keyA, keyB])"
    by blast
  then have d: "length (filter isDebug (newEvents emptyInformers
      (WatchReferencedResources extCacheFails None [keyA, keyB] emptyInformers))) = 2"
    by (simp add: cf absent absentA)
  have e: "newEvents emptyInformers
      (WatchReferencedResources extCacheFails None [keyA, keyB] emptyInformers) =
     [RLock, Debug ''failed creating a cache'', Debug ''failed creating a cache'', RUnlock]"
    by (simp add: WatchReferencedResources_def watchStep_def extCacheFails_def extHealthy_def
        emptyInformers_def newEvents_def emit_def Let_def)
  show ?thesis by (intro conjI absent fails mem a ev b c cf d e)
qed

section \<open>The garbage collection\<close>

lemma cleanupStep_eq:
  "cleanupStep ext e i =
     (emit (cleanupStepEvents ext e) i)
       \<lparr>cdCaches := (if snd (listReferencing ext (fst e)) \<noteq> [] then cdCaches i
                     else AList.delete (fst e) (cdCaches i))\<rparr>"
  by (cases e; cases "listReferencing ext (fst e)")
     (auto simp: cleanupStep_def cleanupStepEvents_def Let_def emit_def split: option.splits)

lemma events_cleanupStep: "events (cleanupStep ext e i) = events i @ cleanupStepEvents ext e"
  by (simp add: cleanupStep_eq)

lemma cdCaches_cleanupStep:
  "cdCaches (cleanupStep ext e i) =
     (if snd (listReferencing ext (fst e)) \<noteq> [] then cdCaches i
      else AList.delete (fst e) (cdCaches i))"
  by (simp add: cleanupStep_eq)

lemma events_cleanupLoop:
  "events (cleanupLoop ext xs i) = events i @ concat (map (cleanupStepEvents ext) xs)"
  by (induction xs arbitrary: i) (simp_all add: events_cleanupStep)

lemma map_of_cleanupLoop:
  "map_of (cdCaches (cleanupLoop ext xs i)) k =
     (if k \<in> fst ` set xs \<and> snd (listReferencing ext k) = [] then None
      else map_of (cdCaches i) k)"
proof (induction xs arbitrary: i)
  case Nil
  show ?case by simp
next
  case (Cons e xs)
  show ?case
    by (simp add: Cons.IH cdCaches_cleanupStep delete_conv')
qed

lemma CancelFn_in_cleanupStepEvents:
  "CancelFn c \<in> set (cleanupStepEvents ext e) \<longleftrightarrow>
     c = cancelFn (snd e) \<and> snd (listReferencing ext (fst e)) = []"
  by (auto simp: cleanupStepEvents_def split: option.splits)

lemma count_CancelFn_cleanupStepEvents:
  "count_list (cleanupStepEvents ext e) (CancelFn c) =
     (if c = cancelFn (snd e) \<and> snd (listReferencing ext (fst e)) = [] then 1 else 0)"
  by (auto simp: cleanupStepEvents_def split: option.splits)

lemma count_CancelFn_cleanup:
  "distinct (map (\<lambda>a. cancelFn (snd a)) xs) \<Longrightarrow> e \<in> set xs \<Longrightarrow>
   count_list (concat (map (cleanupStepEvents ext) xs)) (CancelFn (cancelFn (snd e))) =
     (if snd (listReferencing ext (fst e)) = [] then 1 else 0)"
proof (induction xs)
  case Nil
  then show ?case by simp
next
  case (Cons x xs)
  show ?case
  proof (cases "e = x")
    case True
    from Cons.prems have "cancelFn (snd x) \<notin> (\<lambda>a. cancelFn (snd a)) ` set xs" by simp
    then have "\<forall>y \<in> set xs. CancelFn (cancelFn (snd x)) \<notin> set (cleanupStepEvents ext y)"
      by (auto simp: CancelFn_in_cleanupStepEvents)
    then have "count_list (concat (map (cleanupStepEvents ext) xs)) (CancelFn (cancelFn (snd x))) = 0"
      by (simp add: count_list_0_iff)
    with True show ?thesis by (simp add: count_CancelFn_cleanupStepEvents)
  next
    case False
    with Cons.prems have mem: "e \<in> set xs" and d: "distinct (map (\<lambda>a. cancelFn (snd a)) xs)"
      and "cancelFn (snd x) \<notin> (\<lambda>a. cancelFn (snd a)) ` set xs"
      by auto
    then have "cancelFn (snd e) \<noteq> cancelFn (snd x)" by (metis imageI)
    then show ?thesis
      using Cons.IH [OF d mem] by (simp add: count_CancelFn_cleanupStepEvents)
  qed
qed

lemma listReferencing_onlyA:
  "listReferencing extOnlyAReferenced keyA = (None, [''composite-1''])"
  "listReferencing extOnlyAReferenced keyB = (None, [])"
  by (simp_all add: listReferencing_def extOnlyAReferenced_def extHealthy_def keyA_def keyB_def)

lemma listReferencing_fails:
  "listReferencing extListFails gc = (Some ''connection refused'', [])"
  by (simp add: listReferencing_def extListFails_def extHealthy_def)

lemma listReferencing_healthy:
  "listReferencing extHealthy gc = (None, [])"
  by (simp add: listReferencing_def extHealthy_def)

text \<open>
  C5. Let the session table have one entry per key and one cancel function per entry,
  and let every \<^verbatim>\<open>List\<close> call of the sweep succeed. Then for every entry of the table:
  if its query returned no item, the key is absent after the sweep and the sweep called
  the entry's cancel function exactly once; if its query returned an item, the key maps
  to the same entry after the sweep and the sweep did not call its cancel function.
  The sweep logs no failure.
\<close>

theorem cleanup_removes_exactly_the_unreferenced:
  assumes keys: "distinct (map fst (cdCaches i))"
    and handles: "distinct (map (\<lambda>e. cancelFn (snd e)) (cdCaches i))"
    and ok: "\<forall>e \<in> set (cdCaches i). fst (listReferencing ext (fst e)) = None"
    and mem: "(gc, cdc) \<in> set (cdCaches i)"
  shows "(snd (listReferencing ext gc) = [] \<longrightarrow>
            map_of (cdCaches (cleanupReferencedResourceInformers ext i)) gc = None \<and>
            count_list (newEvents i (cleanupReferencedResourceInformers ext i))
              (CancelFn (cancelFn cdc)) = 1) \<and>
         (snd (listReferencing ext gc) \<noteq> [] \<longrightarrow>
            map_of (cdCaches (cleanupReferencedResourceInformers ext i)) gc = Some cdc \<and>
            CancelFn (cancelFn cdc) \<notin> set (newEvents i (cleanupReferencedResourceInformers ext i))) \<and>
         (\<forall>m. Debug m \<notin> set (newEvents i (cleanupReferencedResourceInformers ext i)))"
proof -
  let ?i' = "cleanupReferencedResourceInformers ext i"
  have new: "newEvents i ?i' = concat (map (cleanupStepEvents ext) (cdCaches i))"
    by (simp add: cleanupReferencedResourceInformers_def newEvents_def events_cleanupLoop)
  have look: "map_of (cdCaches i) gc = Some cdc"
    using keys mem by simp
  have dom: "gc \<in> fst ` set (cdCaches i)"
    using mem by force
  have cnt: "count_list (newEvents i ?i') (CancelFn (cancelFn cdc)) =
        (if snd (listReferencing ext gc) = [] then 1 else 0)"
    using count_CancelFn_cleanup [OF handles mem, of ext] by (simp add: new)
  have gone: "snd (listReferencing ext gc) = [] \<Longrightarrow> map_of (cdCaches ?i') gc = None"
    using dom by (simp add: cleanupReferencedResourceInformers_def map_of_cleanupLoop)
  have kept: "snd (listReferencing ext gc) \<noteq> [] \<Longrightarrow> map_of (cdCaches ?i') gc = Some cdc"
    using look by (simp add: cleanupReferencedResourceInformers_def map_of_cleanupLoop)
  have quiet: "\<forall>m. Debug m \<notin> set (newEvents i ?i')"
    using ok by (auto simp: new cleanupStepEvents_def)
  show ?thesis
    using cnt gone kept quiet by (auto simp: count_list_0_iff)
qed

theorem cleanup_removes_exactly_the_unreferenced_witness:
  "distinct (map fst (cdCaches watchedAB)) \<and>
   distinct (map (\<lambda>e. cancelFn (snd e)) (cdCaches watchedAB)) \<and>
   list_all (\<lambda>e. fst (listReferencing extOnlyAReferenced (fst e)) = None) (cdCaches watchedAB) \<and>
   (keyA, \<lparr>cache = 7, cancelFn = 0\<rparr>) \<in> set (cdCaches watchedAB) \<and>
   (keyB, \<lparr>cache = 7, cancelFn = 1\<rparr>) \<in> set (cdCaches watchedAB) \<and>
   snd (listReferencing extOnlyAReferenced keyA) \<noteq> [] \<and>
   snd (listReferencing extOnlyAReferenced keyB) = [] \<and>
   map_of (cdCaches (cleanupReferencedResourceInformers extOnlyAReferenced watchedAB)) keyA =
     Some \<lparr>cache = 7, cancelFn = 0\<rparr> \<and>
   CancelFn 0 \<notin> set (newEvents watchedAB
     (cleanupReferencedResourceInformers extOnlyAReferenced watchedAB)) \<and>
   map_of (cdCaches (cleanupReferencedResourceInformers extOnlyAReferenced watchedAB)) keyB = None \<and>
   count_list (newEvents watchedAB
     (cleanupReferencedResourceInformers extOnlyAReferenced watchedAB)) (CancelFn 1) = 1"
proof -
  have cs: "cdCaches watchedAB =
      [(keyA, \<lparr>cache = 7, cancelFn = 0\<rparr>), (keyB, \<lparr>cache = 7, cancelFn = 1\<rparr>)]"
    by (simp add: watchedAB_eval)
  have keys: "distinct (map fst (cdCaches watchedAB))"
    by (simp add: cs)
  have handles: "distinct (map (\<lambda>e. cancelFn (snd e)) (cdCaches watchedAB))"
    by (simp add: cs)
  have ok: "\<forall>e \<in> set (cdCaches watchedAB). fst (listReferencing extOnlyAReferenced (fst e)) = None"
    by (simp add: cs listReferencing_onlyA)
  have ok': "list_all (\<lambda>e. fst (listReferencing extOnlyAReferenced (fst e)) = None) (cdCaches watchedAB)"
    by (simp add: cs listReferencing_onlyA)
  have mA: "(keyA, \<lparr>cache = 7, cancelFn = 0\<rparr>) \<in> set (cdCaches watchedAB)"
    by (simp add: cs)
  have mB: "(keyB, \<lparr>cache = 7, cancelFn = 1\<rparr>) \<in> set (cdCaches watchedAB)"
    by (simp add: cs)
  have rA: "snd (listReferencing extOnlyAReferenced keyA) \<noteq> []"
    by (simp add: listReferencing_onlyA)
  have rB: "snd (listReferencing extOnlyAReferenced keyB) = []"
    by (simp add: listReferencing_onlyA)
  note tA = cleanup_removes_exactly_the_unreferenced [OF keys handles ok mA]
  note tB = cleanup_removes_exactly_the_unreferenced [OF keys handles ok mB]
  from tA rA have a1: "map_of (cdCaches (cleanupReferencedResourceInformers extOnlyAReferenced
      watchedAB)) keyA = Some \<lparr>cache = 7, cancelFn = 0\<rparr>" by blast
  from tA rA have a2: "CancelFn 0 \<notin> set (newEvents watchedAB
     (cleanupReferencedResourceInformers extOnlyAReferenced watchedAB))" by simp
  from tB rB have b1: "map_of (cdCaches (cleanupReferencedResourceInformers extOnlyAReferenced
      watchedAB)) keyB = None" by blast
  from tB rB have b2: "count_list (newEvents watchedAB
     (cleanupReferencedResourceInformers extOnlyAReferenced watchedAB)) (CancelFn 1) = 1" by simp
  show ?thesis by (intro conjI keys handles ok' mA mB rA rB a1 a2 b1 b2)
qed

text \<open>
  C1 (what the code does where the query fails). After the failed \<^verbatim>\<open>List\<close> call is
  logged there is no \<^verbatim>\<open>continue\<close>: the list is still empty, so the round goes on to
  cancel the session and delete its key. In the state that watches \<open>keyA\<close> and
  \<open>keyB\<close>, a sweep whose queries all fail cancels both sessions and leaves \<open>keyA\<close>
  without an entry.
\<close>

theorem cleanup_deletes_when_the_query_fails:
  "map_of (cdCaches watchedAB) keyA = Some \<lparr>cache = 7, cancelFn = 0\<rparr> \<and>
   fst (listReferencing extListFails keyA) = Some ''connection refused'' \<and>
   map_of (cdCaches (cleanupReferencedResourceInformers extListFails watchedAB)) keyA = None \<and>
   newEvents watchedAB (cleanupReferencedResourceInformers extListFails watchedAB) =
     [Debug ''cannot list objects referencing a certain resource GVK'',
      CancelFn 0, Info ''Stopped referenced resource watch'',
      Debug ''cannot list objects referencing a certain resource GVK'',
      CancelFn 1, Info ''Stopped referenced resource watch'']"
proof -
  have cs: "cdCaches watchedAB =
      [(keyA, \<lparr>cache = 7, cancelFn = 0\<rparr>), (keyB, \<lparr>cache = 7, cancelFn = 1\<rparr>)]"
    by (simp add: watchedAB_eval)
  have "map_of (cdCaches (cleanupReferencedResourceInformers extListFails watchedAB)) keyA = None"
    unfolding cleanupReferencedResourceInformers_def map_of_cleanupLoop
    by (simp add: cs listReferencing_fails)
  moreover have "newEvents watchedAB (cleanupReferencedResourceInformers extListFails watchedAB) =
     [Debug ''cannot list objects referencing a certain resource GVK'',
      CancelFn 0, Info ''Stopped referenced resource watch'',
      Debug ''cannot list objects referencing a certain resource GVK'',
      CancelFn 1, Info ''Stopped referenced resource watch'']"
    unfolding cleanupReferencedResourceInformers_def newEvents_def events_cleanupLoop
    by (simp add: cs cleanupStepEvents_def listReferencing_fails)
  ultimately show ?thesis
    by (simp add: cs listReferencing_fails)
qed

text \<open>
  C2 (what the code does with the lock). \<^verbatim>\<open>WatchReferencedResources\<close> inserts into the
  session table between \<^verbatim>\<open>RLock\<close> and \<^verbatim>\<open>RUnlock\<close>: the write lock is never taken.
  \<^verbatim>\<open>cleanupReferencedResourceInformers\<close> deletes from the session table without any
  operation on the lock.
\<close>

theorem tables_change_without_the_write_lock:
  "cdCaches emptyInformers = [] \<and>
   cdCaches (WatchReferencedResources extHealthy None [keyA, keyB] emptyInformers) =
     [(keyA, \<lparr>cache = 7, cancelFn = 0\<rparr>), (keyB, \<lparr>cache = 7, cancelFn = 1\<rparr>)] \<and>
   newEvents emptyInformers (WatchReferencedResources extHealthy None [keyA, keyB] emptyInformers) =
     [RLock, Go (CacheStart 7 0), Go (WaitForCacheSync 7 0),
      Go (CacheStart 7 1), Go (WaitForCacheSync 7 1), RUnlock] \<and>
   map_of (cdCaches (cleanupReferencedResourceInformers extHealthy watchedAB)) keyA = None \<and>
   map_of (cdCaches (cleanupReferencedResourceInformers extHealthy watchedAB)) keyB = None \<and>
   newEvents watchedAB (cleanupReferencedResourceInformers extHealthy watchedAB) =
     [CancelFn 0, Info ''Stopped referenced resource watch'',
      CancelFn 1, Info ''Stopped referenced resource watch'']"
proof -
  have cs: "cdCaches watchedAB =
      [(keyA, \<lparr>cache = 7, cancelFn = 0\<rparr>), (keyB, \<lparr>cache = 7, cancelFn = 1\<rparr>)]"
    by (simp add: watchedAB_eval)
  have w: "WatchReferencedResources extHealthy None [keyA, keyB] emptyInformers = watchedAB"
    by (simp add: watchedAB_def)
  have e0: "events emptyInformers = []" "cdCaches emptyInformers = []"
    by (simp_all add: emptyInformers_def)
  have a: "newEvents emptyInformers watchedAB =
     [RLock, Go (CacheStart 7 0), Go (WaitForCacheSync 7 0),
      Go (CacheStart 7 1), Go (WaitForCacheSync 7 1), RUnlock]"
    by (simp add: newEvents_def e0 watchedAB_eval)
  have b: "map_of (cdCaches (cleanupReferencedResourceInformers extHealthy watchedAB)) keyA = None"
      "map_of (cdCaches (cleanupReferencedResourceInformers extHealthy watchedAB)) keyB = None"
    unfolding cleanupReferencedResourceInformers_def map_of_cleanupLoop
    by (simp_all add: cs listReferencing_healthy)
  have c: "newEvents watchedAB (cleanupReferencedResourceInformers extHealthy watchedAB) =
     [CancelFn 0, Info ''Stopped referenced resource watch'',
      CancelFn 1, Info ''Stopped referenced resource watch'']"
    unfolding cleanupReferencedResourceInformers_def newEvents_def events_cleanupLoop
    by (simp add: cs cleanupStepEvents_def listReferencing_healthy)
  show ?thesis
    unfolding w by (intro conjI e0(2) cs a b c)
qed

end
